theory Spec2Isabelle
  imports Main "HOL-Library.Word" "HOL-Library.Multiset"
begin

unbundle bit_operations_syntax

section \<open>Image Encryptor: XOR mask and seeded shuffle over pixel bytes\<close>

text \<open>
  A shallow embedding of \<^verbatim>\<open>main.py\<close>. The Python functions keep their names. What the
  program takes from outside its own file is made explicit:
  \<^item> \<^verbatim>\<open>str.encode("utf-8")\<close> and \<^verbatim>\<open>hashlib.sha256\<close> are written out (the codec's
    strict mode and FIPS 180-4);
  \<^item> NumPy's random generator and its uninitialised memory are fields of a runtime record
    that every function using them takes as its first argument;
  \<^item> Pillow's image decoding and encoding are fields of a second record, over an abstract
    file-system state.
\<close>

subsection \<open>Values and exceptions\<close>

type_synonym byte = "8 word"

text \<open>
  A Python \<^verbatim>\<open>str\<close> is a sequence of code points. Lone surrogates (U+D800 to U+DFFF) can
  occur in a \<^verbatim>\<open>str\<close> (the command line delivers undecodable bytes that way), so they are
  part of the type here.
\<close>

type_synonym str = "nat list"

definition lit :: "string \<Rightarrow> str" where
  "lit s = map of_char s"

datatype error =
    UnicodeEncodeError
  | ValueError string
  | IndexError
  | OSError

subsection \<open>Built-in: strict UTF-8 encoding\<close>

text \<open>
  \<^verbatim>\<open>password.encode("utf-8")\<close> raises \<^verbatim>\<open>UnicodeEncodeError\<close> on a surrogate code point.
  Numbers from \<open>0x110000\<close> on are no code points of a \<^verbatim>\<open>str\<close>; the model rejects them
  in the same way.
\<close>

definition encode_char :: "nat \<Rightarrow> error + byte list" where
  "encode_char c =
     (if c < 0x80 then Inr [of_nat c]
      else if c < 0x800 then
        Inr [of_nat (0xC0 + c div 0x40), of_nat (0x80 + c mod 0x40)]
      else if 0xD800 \<le> c \<and> c < 0xE000 then Inl UnicodeEncodeError
      else if c < 0x10000 then
        Inr [of_nat (0xE0 + c div 0x1000), of_nat (0x80 + c div 0x40 mod 0x40),
             of_nat (0x80 + c mod 0x40)]
      else if c < 0x110000 then
        Inr [of_nat (0xF0 + c div 0x40000), of_nat (0x80 + c div 0x1000 mod 0x40),
             of_nat (0x80 + c div 0x40 mod 0x40), of_nat (0x80 + c mod 0x40)]
      else Inl UnicodeEncodeError)"

fun encode_utf8 :: "str \<Rightarrow> error + byte list" where
  "encode_utf8 [] = Inr []"
| "encode_utf8 (c # cs) =
     (case encode_char c of
        Inl e \<Rightarrow> Inl e
      | Inr bs \<Rightarrow>
          (case encode_utf8 cs of
             Inl e \<Rightarrow> Inl e
           | Inr rest \<Rightarrow> Inr (bs @ rest)))"

text \<open>The strings that have an encoding: every code point is a Unicode scalar value.\<close>

definition encodable :: "str \<Rightarrow> bool" where
  "encodable s \<longleftrightarrow> list_all (\<lambda>c. c < 0xD800 \<or> (0xE000 \<le> c \<and> c < 0x110000)) s"

subsection \<open>Library: SHA-256 (FIPS 180-4)\<close>

text \<open>
  \<^verbatim>\<open>hashlib.sha256(data).digest()\<close>: the message is padded to a multiple of 64 bytes, cut
  into blocks of sixteen big-endian 32-bit words, and each block is compressed into the
  running state of eight words; the digest is the final state, big-endian.
\<close>

text \<open>The round constants, in the eight rows of eight of the standard's section 4.2.2.\<close>

definition sha256_k :: "32 word list" where
  "sha256_k = concat
     [[0x428a2f98, 0x71374491, 0xb5c0fbcf, 0xe9b5dba5, 0x3956c25b, 0x59f111f1, 0x923f82a4, 0xab1c5ed5],
      [0xd807aa98, 0x12835b01, 0x243185be, 0x550c7dc3, 0x72be5d74, 0x80deb1fe, 0x9bdc06a7, 0xc19bf174],
      [0xe49b69c1, 0xefbe4786, 0x0fc19dc6, 0x240ca1cc, 0x2de92c6f, 0x4a7484aa, 0x5cb0a9dc, 0x76f988da],
      [0x983e5152, 0xa831c66d, 0xb00327c8, 0xbf597fc7, 0xc6e00bf3, 0xd5a79147, 0x06ca6351, 0x14292967],
      [0x27b70a85, 0x2e1b2138, 0x4d2c6dfc, 0x53380d13, 0x650a7354, 0x766a0abb, 0x81c2c92e, 0x92722c85],
      [0xa2bfe8a1, 0xa81a664b, 0xc24b8b70, 0xc76c51a3, 0xd192e819, 0xd6990624, 0xf40e3585, 0x106aa070],
      [0x19a4c116, 0x1e376c08, 0x2748774c, 0x34b0bcb5, 0x391c0cb3, 0x4ed8aa4a, 0x5b9cca4f, 0x682e6ff3],
      [0x748f82ee, 0x78a5636f, 0x84c87814, 0x8cc70208, 0x90befffa, 0xa4506ceb, 0xbef9a3f7, 0xc67178f2]]"

type_synonym sha_state =
  "32 word \<times> 32 word \<times> 32 word \<times> 32 word \<times> 32 word \<times> 32 word \<times> 32 word \<times> 32 word"

definition sha256_init :: sha_state where
  "sha256_init =
     (0x6a09e667, 0xbb67ae85, 0x3c6ef372, 0xa54ff53a,
      0x510e527f, 0x9b05688c, 0x1f83d9ab, 0x5be0cd19)"

definition ch :: "32 word \<Rightarrow> 32 word \<Rightarrow> 32 word \<Rightarrow> 32 word" where
  "ch x y z = (x AND y) XOR (NOT x AND z)"

definition maj :: "32 word \<Rightarrow> 32 word \<Rightarrow> 32 word \<Rightarrow> 32 word" where
  "maj x y z = (x AND y) XOR (x AND z) XOR (y AND z)"

definition big_sigma0 :: "32 word \<Rightarrow> 32 word" where
  "big_sigma0 x = word_rotr 2 x XOR word_rotr 13 x XOR word_rotr 22 x"

definition big_sigma1 :: "32 word \<Rightarrow> 32 word" where
  "big_sigma1 x = word_rotr 6 x XOR word_rotr 11 x XOR word_rotr 25 x"

definition small_sigma0 :: "32 word \<Rightarrow> 32 word" where
  "small_sigma0 x = word_rotr 7 x XOR word_rotr 18 x XOR drop_bit 3 x"

definition small_sigma1 :: "32 word \<Rightarrow> 32 word" where
  "small_sigma1 x = word_rotr 17 x XOR word_rotr 19 x XOR drop_bit 10 x"

text \<open>Big-endian reading and writing of 32-bit and 64-bit words.\<close>

definition be_word32 :: "byte list \<Rightarrow> 32 word" where
  "be_word32 bs = foldl (\<lambda>acc b. push_bit 8 acc OR ucast b) 0 bs"

definition word32_bytes :: "32 word \<Rightarrow> byte list" where
  "word32_bytes w = [ucast (drop_bit 24 w), ucast (drop_bit 16 w), ucast (drop_bit 8 w), ucast w]"

definition word64_bytes :: "64 word \<Rightarrow> byte list" where
  "word64_bytes w =
     [ucast (drop_bit 56 w), ucast (drop_bit 48 w), ucast (drop_bit 40 w), ucast (drop_bit 32 w),
      ucast (drop_bit 24 w), ucast (drop_bit 16 w), ucast (drop_bit 8 w), ucast w]"

definition sha256_pad :: "byte list \<Rightarrow> byte list" where
  "sha256_pad m =
     m @ [0x80] @ replicate ((119 - length m mod 64) mod 64) 0 @
     word64_bytes (of_nat (8 * length m))"

definition chunks :: "nat \<Rightarrow> 'a list \<Rightarrow> 'a list list" where
  "chunks n xs = map (\<lambda>i. take n (drop (i * n) xs)) [0..<length xs div n]"

definition block_words :: "byte list \<Rightarrow> 32 word list" where
  "block_words block = map be_word32 (chunks 4 block)"

primrec extend_schedule :: "nat \<Rightarrow> 32 word list \<Rightarrow> 32 word list" where
  "extend_schedule 0 w = w"
| "extend_schedule (Suc k) w =
     (let t = length w in
      extend_schedule k
        (w @ [small_sigma1 (w ! (t - 2)) + w ! (t - 7) + small_sigma0 (w ! (t - 15)) + w ! (t - 16)]))"

definition message_schedule :: "byte list \<Rightarrow> 32 word list" where
  "message_schedule block = extend_schedule 48 (block_words block)"

fun sha256_round :: "32 word \<times> 32 word \<Rightarrow> sha_state \<Rightarrow> sha_state" where
  "sha256_round (k, w) (a, b, c, d, e, f, g, h) =
     (let t1 = h + big_sigma1 e + ch e f g + k + w;
          t2 = big_sigma0 a + maj a b c
      in (t1 + t2, a, b, c, d + t1, e, f, g))"

fun add_state :: "sha_state \<Rightarrow> sha_state \<Rightarrow> sha_state" where
  "add_state (a, b, c, d, e, f, g, h) (a', b', c', d', e', f', g', h') =
     (a + a', b + b', c + c', d + d', e + e', f + f', g + g', h + h')"

definition sha256_compress :: "byte list \<Rightarrow> sha_state \<Rightarrow> sha_state" where
  "sha256_compress block s =
     add_state s (fold sha256_round (zip sha256_k (message_schedule block)) s)"

fun state_bytes :: "sha_state \<Rightarrow> byte list" where
  "state_bytes (a, b, c, d, e, f, g, h) =
     concat (map word32_bytes [a, b, c, d, e, f, g, h])"

definition sha256 :: "byte list \<Rightarrow> byte list" where
  "sha256 m = state_bytes (fold sha256_compress (chunks 64 (sha256_pad m)) sha256_init)"

subsection \<open>Key material helpers\<close>

text \<open>\<^verbatim>\<open>int.from_bytes(bs, "big", signed=False)\<close>.\<close>

definition from_bytes_big :: "byte list \<Rightarrow> nat" where
  "from_bytes_big bs = foldl (\<lambda>acc b. acc * 256 + unat b) 0 bs"

text \<open>\<^verbatim>\<open>h[i]\<close> on a \<^verbatim>\<open>bytes\<close> object, for an index that is not negative.\<close>

definition getitem :: "'a list \<Rightarrow> nat \<Rightarrow> error + 'a" where
  "getitem xs i = (if i < length xs then Inr (xs ! i) else Inl IndexError)"

text \<open>
  \<^verbatim>\<open>derive_key_byte\<close>: the value returned is an element of a \<^verbatim>\<open>bytes\<close> object, a byte;
  \<^verbatim>\<open>xor_transform\<close> turns it into a \<^verbatim>\<open>np.uint8\<close>, which keeps a byte as it is.
\<close>

definition derive_key_byte :: "str \<Rightarrow> error + byte" where
  "derive_key_byte password =
     (case encode_utf8 password of
        Inl e \<Rightarrow> Inl e
      | Inr m \<Rightarrow> let h = sha256 m in getitem h 0)"

text \<open>\<^verbatim>\<open>derive_seed\<close>: a Python \<^verbatim>\<open>int\<close> that is never negative, hence a \<open>nat\<close>.\<close>

definition derive_seed :: "str \<Rightarrow> error + nat" where
  "derive_seed password =
     (case encode_utf8 password of
        Inl e \<Rightarrow> Inl e
      | Inr m \<Rightarrow> let h = sha256 m in Inr (from_bytes_big (take 8 h)))"

subsection \<open>NumPy arrays and the NumPy runtime\<close>

text \<open>
  An image array is its shape and its bytes in row-major order: \<^verbatim>\<open>arr.reshape(-1)\<close> is
  \<open>data arr\<close>, and \<^verbatim>\<open>flat.size\<close> is its length. An array of NumPy satisfies
  \<open>well_formed\<close>. Index arrays (\<^verbatim>\<open>perm\<close>, \<^verbatim>\<open>inv\<close>) are lists of \<open>nat\<close>.
\<close>

record ndarray =
  shape :: "nat list"
  data :: "byte list"

definition well_formed :: "ndarray \<Rightarrow> bool" where
  "well_formed arr \<longleftrightarrow> length (data arr) = prod_list (shape arr)"

text \<open>\<^verbatim>\<open>flat.reshape(shp)\<close> raises \<^verbatim>\<open>ValueError\<close> when the sizes differ.\<close>

definition reshape :: "byte list \<Rightarrow> nat list \<Rightarrow> error + ndarray" where
  "reshape flat shp =
     (if length flat = prod_list shp then Inr \<lparr>shape = shp, data = flat\<rparr>
      else Inl (ValueError ''cannot reshape array''))"

text \<open>\<^verbatim>\<open>xs[idx]\<close> with an index array: \<^verbatim>\<open>IndexError\<close> when an index is out of bounds.\<close>

definition take_indices :: "'a list \<Rightarrow> nat list \<Rightarrow> error + 'a list" where
  "take_indices xs idx =
     (if list_all (\<lambda>j. j < length xs) idx then Inr (map (\<lambda>j. xs ! j) idx)
      else Inl IndexError)"

text \<open>
  \<^verbatim>\<open>xs[idx] = vals\<close> with an index array and as many values: the assignments happen in
  order, so the last one wins where an index repeats. The program only passes
  \<^verbatim>\<open>np.arange(perm.size)\<close>, as long as the index array; broadcasting of a shorter value
  array is left out, and any other length is rejected.
\<close>

definition put_indices :: "'a list \<Rightarrow> nat list \<Rightarrow> 'a list \<Rightarrow> error + 'a list" where
  "put_indices xs idx vals =
     (if \<not> list_all (\<lambda>j. j < length xs) idx then Inl IndexError
      else if length vals \<noteq> length idx then Inl (ValueError ''shape mismatch'')
      else Inr (fold (\<lambda>(j, v) a. a[j := v]) (zip idx vals) xs))"

text \<open>
  What the program takes from NumPy without fixing it: how a seed becomes a generator state,
  the state an unseeded generator would draw from the operating system, the generator's
  bounded draw (a number of \<open>[0, max]\<close> and the next state), and the contents of memory
  that \<^verbatim>\<open>np.empty_like\<close> allocates and does not initialise.
\<close>

record 's numpy =
  seed_state :: "nat \<Rightarrow> 's"
  os_entropy :: "'s"
  random_interval :: "'s \<Rightarrow> nat \<Rightarrow> nat \<times> 's"
  uninitialised :: "nat \<Rightarrow> nat"

text \<open>The contract of the bounded draw: the number drawn is at most the bound.\<close>

definition well_bounded :: "'s numpy \<Rightarrow> bool" where
  "well_bounded np \<longleftrightarrow> (\<forall>st i. fst (random_interval np st i) \<le> i)"

definition default_rng :: "'s numpy \<Rightarrow> nat option \<Rightarrow> 's" where
  "default_rng np seed = (case seed of None \<Rightarrow> os_entropy np | Some s \<Rightarrow> seed_state np s)"

definition empty_like :: "'s numpy \<Rightarrow> nat list \<Rightarrow> nat list" where
  "empty_like np xs = map (uninitialised np) [0..<length xs]"

text \<open>
  Modelled from the spec: \<^verbatim>\<open>Generator.permutation\<close> is NumPy's, not this repository's.
  Section 4.3 of the spec: a Fisher-Yates shuffle of \<open>0..n-1\<close> that consumes the generator's
  output in a fixed order. The index \<open>i\<close> runs from \<open>n - 1\<close> down to \<open>1\<close>; each step draws
  \<open>j\<close> from \<open>[0, i]\<close> and exchanges the entries at \<open>i\<close> and \<open>j\<close>.
\<close>

definition swap :: "nat list \<Rightarrow> nat \<Rightarrow> nat \<Rightarrow> nat list" where
  "swap xs i j = xs[i := xs ! j, j := xs ! i]"

primrec shuffle_down :: "'s numpy \<Rightarrow> nat \<Rightarrow> 's \<Rightarrow> nat list \<Rightarrow> nat list \<times> 's" where
  "shuffle_down np 0 st xs = (xs, st)"
| "shuffle_down np (Suc k) st xs =
     (case random_interval np st (Suc k) of
        (j, st') \<Rightarrow> shuffle_down np k st' (swap xs (Suc k) j))"

definition permutation :: "'s numpy \<Rightarrow> 's \<Rightarrow> nat \<Rightarrow> nat list \<times> 's" where
  "permutation np st n = shuffle_down np (n - 1) st [0..<n]"

subsection \<open>Core transforms\<close>

definition xor_transform :: "ndarray \<Rightarrow> byte \<Rightarrow> ndarray" where
  "xor_transform arr key_byte = arr\<lparr>data := map (\<lambda>b. b XOR key_byte) (data arr)\<rparr>"

definition permutation_for_length :: "'s numpy \<Rightarrow> nat \<Rightarrow> nat \<Rightarrow> nat list" where
  "permutation_for_length np n seed =
     (let rng = default_rng np (Some seed) in fst (permutation np rng n))"

text \<open>
  The two lines of \<^verbatim>\<open>apply_shuffle\<close> that build the inverse:
  \<^verbatim>\<open>inv = np.empty_like(perm); inv[perm] = np.arange(perm.size)\<close>.
\<close>

definition inverse_of :: "'s numpy \<Rightarrow> nat list \<Rightarrow> error + nat list" where
  "inverse_of np perm = put_indices (empty_like np perm) perm [0..<length perm]"

definition apply_shuffle :: "'s numpy \<Rightarrow> ndarray \<Rightarrow> nat \<Rightarrow> bool \<Rightarrow> error + ndarray" where
  "apply_shuffle np arr seed encrypt =
     (let flat = data arr;
          perm = permutation_for_length np (length flat) seed
      in if encrypt then
           (case take_indices flat perm of
              Inl e \<Rightarrow> Inl e
            | Inr shuffled \<Rightarrow> reshape shuffled (shape arr))
         else
           (case inverse_of np perm of
              Inl e \<Rightarrow> Inl e
            | Inr inv_perm \<Rightarrow>
                (case take_indices flat inv_perm of
                   Inl e \<Rightarrow> Inl e
                 | Inr unshuffled \<Rightarrow> reshape unshuffled (shape arr))))"

subsection \<open>Image input and output\<close>

text \<open>
  Pillow and \<^verbatim>\<open>os.path\<close> are outside the program: opening a file as an image, converting
  an image to a mode, splitting a path at its extension, and encoding an image into a file.
  \<open>'w\<close> is the state of the file system; only \<open>image_save\<close> changes it.
\<close>

record image =
  im_mode :: str
  im_pixels :: ndarray

record 'w io_layer =
  image_open :: "'w \<Rightarrow> str \<Rightarrow> error + image"
  convert :: "image \<Rightarrow> str \<Rightarrow> image"
  splitext :: "str \<Rightarrow> str \<times> str"
  image_save :: "'w \<Rightarrow> image \<Rightarrow> str \<Rightarrow> error option \<times> 'w"

definition ALLOWED_MODES :: "str set" where
  "ALLOWED_MODES = {lit ''L'', lit ''RGB'', lit ''RGBA''}"

definition load_image_as_array :: "'w io_layer \<Rightarrow> 'w \<Rightarrow> str \<Rightarrow> error + (ndarray \<times> str)" where
  "load_image_as_array io w path =
     (case image_open io w path of
        Inl e \<Rightarrow> Inl e
      | Inr img \<Rightarrow>
          (let img' = (if im_mode img \<notin> ALLOWED_MODES then convert io img (lit ''RGBA'') else img)
           in Inr (im_pixels img', im_mode img')))"

definition save_array_as_image ::
  "'w io_layer \<Rightarrow> 'w \<Rightarrow> ndarray \<Rightarrow> str \<Rightarrow> str \<Rightarrow> error option \<times> 'w" where
  "save_array_as_image io w arr mode out_path =
     (case splitext io out_path of
        (root, ext) \<Rightarrow>
          (let out_path' = (if ext = [] then root @ lit ''.png'' else out_path);
               img = \<lparr>im_mode = mode, im_pixels = arr\<rparr>
           in image_save io w img out_path'))"

subsection \<open>Pipeline\<close>

definition mode_message :: string where
  "mode_message = ''mode must be one of: xor, shuffle, both''"

definition action_message :: string where
  "action_message =
     ''action must be '' @ [CHR 0x27] @ ''encrypt'' @ [CHR 0x27] @ '' or '' @
     [CHR 0x27] @ ''decrypt'' @ [CHR 0x27]"

text \<open>
  The body of \<^verbatim>\<open>process\<close> between loading and saving (lines 102 to 122): key derivation,
  the two argument checks, and the transforms in the order the direction asks for.
\<close>

definition pipeline :: "'s numpy \<Rightarrow> ndarray \<Rightarrow> str \<Rightarrow> str \<Rightarrow> str \<Rightarrow> error + ndarray" where
  "pipeline np arr password mode action =
     (case derive_key_byte password of
        Inl e \<Rightarrow> Inl e
      | Inr key_byte \<Rightarrow>
     (case derive_seed password of
        Inl e \<Rightarrow> Inl e
      | Inr seed \<Rightarrow>
          if mode \<notin> {lit ''xor'', lit ''shuffle'', lit ''both''} then
            Inl (ValueError mode_message)
          else if action \<notin> {lit ''encrypt'', lit ''decrypt''} then
            Inl (ValueError action_message)
          else if action = lit ''encrypt'' then
            (let arr1 = (if mode \<in> {lit ''xor'', lit ''both''}
                         then xor_transform arr key_byte else arr)
             in if mode \<in> {lit ''shuffle'', lit ''both''}
                then apply_shuffle np arr1 seed True else Inr arr1)
          else
            (case (if mode \<in> {lit ''shuffle'', lit ''both''}
                   then apply_shuffle np arr seed False else Inr arr) of
               Inl e \<Rightarrow> Inl e
             | Inr arr1 \<Rightarrow>
                 Inr (if mode \<in> {lit ''xor'', lit ''both''}
                      then xor_transform arr1 key_byte else arr1))))"

text \<open>
  \<^verbatim>\<open>process\<close>: the result is the exception raised, if any, and the file system afterwards.
\<close>

definition process ::
  "'s numpy \<Rightarrow> 'w io_layer \<Rightarrow> 'w \<Rightarrow> str \<Rightarrow> str \<Rightarrow> str \<Rightarrow> str \<Rightarrow> str \<Rightarrow> error option \<times> 'w" where
  "process np io w in_path out_path password mode action =
     (case load_image_as_array io w in_path of
        Inl e \<Rightarrow> (Some e, w)
      | Inr (arr, img_mode) \<Rightarrow>
          (case pipeline np arr password mode action of
             Inl e \<Rightarrow> (Some e, w)
           | Inr arr' \<Rightarrow> save_array_as_image io w arr' img_mode out_path))"

subsection \<open>A generator and an I/O layer to run the model on\<close>

text \<open>
  A linear congruential generator whose bounded draw reduces the state modulo \<open>max + 1\<close>,
  and a file system that is a list of named images, saved without loss.
\<close>

definition lcg :: "nat numpy" where
  "lcg =
     \<lparr>seed_state = (\<lambda>s. s),
      os_entropy = 0,
      random_interval =
        (\<lambda>st i. (st mod (i + 1), (st * 6364136223846793005 + 1442695040888963407) mod 2 ^ 64)),
      uninitialised = (\<lambda>_. 0)\<rparr>"

definition files :: "(str \<times> image) list io_layer" where
  "files =
     \<lparr>image_open = (\<lambda>w path. case map_of w path of None \<Rightarrow> Inl OSError | Some img \<Rightarrow> Inr img),
      convert = (\<lambda>img m. img\<lparr>im_mode := m\<rparr>),
      splitext = (\<lambda>path. (takeWhile (\<lambda>c. c \<noteq> 46) path, dropWhile (\<lambda>c. c \<noteq> 46) path)),
      image_save = (\<lambda>w img path. (None, (path, img) # w))\<rparr>"

definition one_image :: "(str \<times> image) list" where
  "one_image =
     [(lit ''a.png'',
       \<lparr>im_mode = lit ''L'', im_pixels = \<lparr>shape = [2, 2], data = [10, 20, 30, 40]\<rparr>\<rparr>)]"

section \<open>Lemmas\<close>

subsection \<open>Bytes, digests and big-endian numbers\<close>

lemma xor_twice: "(b XOR k) XOR k = (b :: byte)"
  by (simp add: xor.assoc)

lemma length_state_bytes: "length (state_bytes s) = 32"
  by (induction s rule: state_bytes.induct) (simp add: word32_bytes_def)

lemma length_sha256: "length (sha256 m) = 32"
  by (simp add: sha256_def length_state_bytes)

lemma from_bytes_big_8:
  "from_bytes_big [b0, b1, b2, b3, b4, b5, b6, b7] =
     unat b0 * 256 ^ 7 + unat b1 * 256 ^ 6 + unat b2 * 256 ^ 5 + unat b3 * 256 ^ 4 +
     unat b4 * 256 ^ 3 + unat b5 * 256 ^ 2 + unat b6 * 256 + unat b7"
  by (simp add: from_bytes_big_def)

lemma take_8_of_32:
  assumes "length h = 32"
  shows "take 8 h = [h ! 0, h ! 1, h ! 2, h ! 3, h ! 4, h ! 5, h ! 6, h ! 7]"
proof -
  have step: "take (Suc n) h = take n h @ [h ! n]" if "n < 32" for n
    using that assms by (simp add: take_Suc_conv_app_nth)
  have "take 8 h = take (Suc (Suc (Suc (Suc (Suc (Suc (Suc (Suc 0)))))))) h"
    by (simp add: eval_nat_numeral)
  also have "\<dots> = [h ! 0, h ! Suc 0, h ! Suc (Suc 0), h ! Suc (Suc (Suc 0)),
      h ! Suc (Suc (Suc (Suc 0))), h ! Suc (Suc (Suc (Suc (Suc 0)))),
      h ! Suc (Suc (Suc (Suc (Suc (Suc 0))))), h ! Suc (Suc (Suc (Suc (Suc (Suc (Suc 0))))))]"
    by (simp add: step)
  finally show ?thesis by (simp add: eval_nat_numeral)
qed

lemma unat_byte_less: "unat (b :: byte) < 256"
  using unsigned_less [of b, where 'a = nat] by simp

lemma be8_div:
  fixes b0 b1 b2 b3 b4 b5 b6 b7 :: byte
  shows "(unat b0 * 256 ^ 7 + unat b1 * 256 ^ 6 + unat b2 * 256 ^ 5 + unat b3 * 256 ^ 4 +
     unat b4 * 256 ^ 3 + unat b5 * 256 ^ 2 + unat b6 * 256 + unat b7) div 2 ^ 56 = unat b0"
  (is "?s div _ = _")
proof -
  define r where "r = unat b1 * 256 ^ 6 + unat b2 * 256 ^ 5 + unat b3 * 256 ^ 4 +
     unat b4 * 256 ^ 3 + unat b5 * 256 ^ 2 + unat b6 * 256 + unat b7"
  have "r < 2 ^ 56"
    using unat_byte_less [of b1] unat_byte_less [of b2] unat_byte_less [of b3]
      unat_byte_less [of b4] unat_byte_less [of b5] unat_byte_less [of b6]
      unat_byte_less [of b7]
    unfolding r_def by simp
  moreover have "?s = r + unat b0 * 2 ^ 56"
    by (simp add: r_def)
  ultimately show ?thesis by simp
qed

lemma encode_char_ok:
  "c < 0xD800 \<or> (0xE000 \<le> c \<and> c < 0x110000) \<Longrightarrow> \<exists>bs. encode_char c = Inr bs"
  by (auto simp: encode_char_def)

lemma encodable_encodes: "encodable p \<Longrightarrow> \<exists>m. encode_utf8 p = Inr m"
proof (induction p)
  case Nil
  then show ?case by simp
next
  case (Cons c cs)
  then obtain bs rest where "encode_char c = Inr bs" "encode_utf8 cs = Inr rest"
    using encode_char_ok [of c] by (auto simp: encodable_def)
  then show ?case by simp
qed

lemma getitem_sha256: "getitem (sha256 m) 0 = Inr (sha256 m ! 0)"
  by (simp add: getitem_def length_sha256)

lemma sum8:
  fixes f :: "nat \<Rightarrow> nat"
  shows "(\<Sum>i<8. f i) = f 0 + f 1 + f 2 + f 3 + f 4 + f 5 + f 6 + f 7"
proof -
  have "{..<8::nat} = {0, 1, 2, 3, 4, 5, 6, 7}" by auto
  then show ?thesis by simp
qed

lemma seed_of_digest:
  assumes "length h = 32"
  shows "from_bytes_big (take 8 h) = (\<Sum>i<8. unat (h ! i) * 256 ^ (7 - i))"
  unfolding take_8_of_32 [OF assms] from_bytes_big_8 sum8 by simp

lemma seed_top_byte:
  assumes "length h = 32"
  shows "from_bytes_big (take 8 h) div 2 ^ 56 = unat (h ! 0)"
  by (simp only: take_8_of_32 [OF assms] from_bytes_big_8 be8_div)

lemma seed_bound:
  assumes "length h = 32"
  shows "from_bytes_big (take 8 h) < 2 ^ 64"
proof -
  have "from_bytes_big (take 8 h) < 2 ^ 64"
    unfolding take_8_of_32 [OF assms] from_bytes_big_8
    using unat_byte_less [of "h ! 0"] unat_byte_less [of "h ! 1"] unat_byte_less [of "h ! 2"]
      unat_byte_less [of "h ! 3"] unat_byte_less [of "h ! 4"] unat_byte_less [of "h ! 5"]
      unat_byte_less [of "h ! 6"] unat_byte_less [of "h ! 7"]
    by simp
  then show ?thesis .
qed

lemma derive_key_byte_eq:
  "derive_key_byte p = (case encode_utf8 p of Inl e \<Rightarrow> Inl e | Inr m \<Rightarrow> Inr (sha256 m ! 0))"
  by (simp add: derive_key_byte_def getitem_sha256 split: sum.splits)

lemma derive_seed_Inr:
  "encode_utf8 p = Inr m \<Longrightarrow> derive_seed p = Inr (from_bytes_big (take 8 (sha256 m)))"
  by (simp add: derive_seed_def)

lemma derive_seed_Inl: "encode_utf8 p = Inl e \<Longrightarrow> derive_seed p = Inl e"
  by (simp add: derive_seed_def)

subsection \<open>The Fisher-Yates loop yields a permutation\<close>

lemma swap_length: "length (swap xs i j) = length xs"
  by (simp add: swap_def)

lemma swap_mset: "i < length xs \<Longrightarrow> j < length xs \<Longrightarrow> mset (swap xs i j) = mset xs"
  unfolding swap_def by (rule mset_swap)

lemma shuffle_down_mset:
  "well_bounded np \<Longrightarrow> k < length xs \<Longrightarrow> mset (fst (shuffle_down np k st xs)) = mset xs"
proof (induction k arbitrary: st xs)
  case 0
  then show ?case by simp
next
  case (Suc k)
  obtain j st' where draw: "random_interval np st (Suc k) = (j, st')"
    by (cases "random_interval np st (Suc k)")
  from Suc.prems(1) have "fst (random_interval np st (Suc k)) \<le> Suc k"
    unfolding well_bounded_def by blast
  with draw have "j \<le> Suc k" by simp
  with Suc.prems(2) have j: "j < length xs" by simp
  have "mset (fst (shuffle_down np k st' (swap xs (Suc k) j))) = mset (swap xs (Suc k) j)"
    using Suc.prems by (intro Suc.IH) (simp_all add: swap_length)
  also have "\<dots> = mset xs"
    using Suc.prems(2) j by (rule swap_mset)
  finally show ?case by (simp add: draw)
qed

lemma permutation_mset:
  assumes "well_bounded np"
  shows "mset (fst (permutation np st n)) = mset [0..<n]"
proof (cases n)
  case 0
  then show ?thesis by (simp add: permutation_def)
next
  case (Suc m)
  then show ?thesis
    unfolding permutation_def using assms by (intro shuffle_down_mset) simp_all
qed

lemma pfl_mset:
  "well_bounded np \<Longrightarrow> mset (permutation_for_length np n s) = mset [0..<n]"
  by (simp add: permutation_for_length_def permutation_mset)

lemma pfl_length: "well_bounded np \<Longrightarrow> length (permutation_for_length np n s) = n"
  using mset_eq_length [OF pfl_mset] by fastforce

lemma pfl_set: "well_bounded np \<Longrightarrow> set (permutation_for_length np n s) = {0..<n}"
  using mset_eq_setD [OF pfl_mset] by fastforce

lemma pfl_distinct: "well_bounded np \<Longrightarrow> distinct (permutation_for_length np n s)"
  using mset_eq_imp_distinct_iff [OF pfl_mset] by fastforce

lemma pfl_count:
  assumes "well_bounded np" and "v < n"
  shows "count_list (permutation_for_length np n s) v = 1"
proof -
  have d: "distinct (permutation_for_length np n s)"
    using assms(1) by (rule pfl_distinct)
  have "count (mset (permutation_for_length np n s)) v =
      (if v \<in> set (permutation_for_length np n s) then 1 else 0)"
    using d [unfolded distinct_count_atmost_1] by (rule spec)
  moreover have "v \<in> set (permutation_for_length np n s)"
    using assms by (simp add: pfl_set)
  ultimately show ?thesis by (simp add: count_mset)
qed

lemma shuffle_down_cong:
  "random_interval np' = random_interval np \<Longrightarrow> shuffle_down np' k st xs = shuffle_down np k st xs"
  by (induction k arbitrary: st xs) simp_all

subsection \<open>Gathering, scattering and the inverse array\<close>

lemma fold_update_length:
  "length (fold (\<lambda>(j, v) a. a[j := v]) ps a) = length a"
  by (induction ps arbitrary: a) (auto split: prod.splits)

lemma fold_update_other:
  "j \<notin> fst ` set ps \<Longrightarrow> fold (\<lambda>(j, v) a. a[j := v]) ps a ! j = a ! j"
  by (induction ps arbitrary: a) (auto split: prod.splits)

lemma fold_update_nth:
  assumes "distinct idx" "length vals = length idx" "k < length idx" "idx ! k < length a"
  shows "fold (\<lambda>(j, v) a. a[j := v]) (zip idx vals) a ! (idx ! k) = vals ! k"
  using assms
proof (induction idx arbitrary: vals a k)
  case Nil
  then show ?case by simp
next
  case (Cons i idx)
  then obtain v vs where vals: "vals = v # vs" by (cases vals) auto
  show ?case
  proof (cases k)
    case 0
    have "i \<notin> fst ` set (zip idx vs)"
      using Cons.prems(1) by (auto dest: set_zip_leftD)
    then have "fold (\<lambda>(j, v) a. a[j := v]) (zip idx vs) (a[i := v]) ! i = a[i := v] ! i"
      by (rule fold_update_other)
    with 0 Cons.prems(4) show ?thesis by (simp add: vals)
  next
    case (Suc k')
    have "fold (\<lambda>(j, v) a. a[j := v]) (zip idx vs) (a[i := v]) ! (idx ! k') = vs ! k'"
      using Cons.prems Suc vals by (intro Cons.IH) simp_all
    with Suc show ?thesis by (simp add: vals)
  qed
qed

lemma take_indices_ok:
  "set idx \<subseteq> {0..<length xs} \<Longrightarrow> take_indices xs idx = Inr (map (\<lambda>j. xs ! j) idx)"
  by (auto simp: take_indices_def list_all_iff)

lemma inverse_of_ok:
  assumes "distinct perm" and "set perm = {0..<length perm}"
  shows "\<exists>inv_perm. inverse_of np perm = Inr inv_perm \<and> length inv_perm = length perm \<and>
           (\<forall>k<length perm. inv_perm ! (perm ! k) = k) \<and>
           (\<forall>i<length perm. inv_perm ! i < length perm \<and> perm ! (inv_perm ! i) = i)"
proof -
  let ?n = "length perm"
  let ?inv = "fold (\<lambda>(j, v) a. a[j := v]) (zip perm [0..<?n]) (empty_like np perm)"
  have range: "list_all (\<lambda>j. j < length (empty_like np perm)) perm"
    using assms(2) by (auto simp: list_all_iff empty_like_def)
  then have res: "inverse_of np perm = Inr ?inv"
    by (simp add: inverse_of_def put_indices_def)
  have len: "length ?inv = ?n"
    by (simp add: fold_update_length empty_like_def)
  have fwd: "?inv ! (perm ! k) = k" if "k < ?n" for k
  proof -
    have "perm ! k \<in> set perm" using that by simp
    then have "perm ! k < length (empty_like np perm)"
      using assms(2) by (simp add: empty_like_def)
    then have "?inv ! (perm ! k) = [0..<?n] ! k"
      using assms(1) that by (intro fold_update_nth) simp_all
    then show ?thesis using that by simp
  qed
  have bwd: "?inv ! i < ?n \<and> perm ! (?inv ! i) = i" if "i < ?n" for i
  proof -
    have "i \<in> set perm" using that assms(2) by simp
    then obtain k where k: "k < ?n" "perm ! k = i"
      by (auto simp: in_set_conv_nth)
    then have "?inv ! i = k" using fwd by blast
    with k show ?thesis by simp
  qed
  show ?thesis using res len fwd bwd by blast
qed

lemma reshape_ok: "length flat = prod_list shp \<Longrightarrow> reshape flat shp = Inr \<lparr>shape = shp, data = flat\<rparr>"
  by (simp add: reshape_def)

lemma apply_shuffle_encrypt:
  assumes "well_bounded np" and "well_formed b"
  shows "apply_shuffle np b s True =
           Inr \<lparr>shape = shape b,
                data = map (\<lambda>j. data b ! j) (permutation_for_length np (length (data b)) s)\<rparr>"
proof -
  let ?perm = "permutation_for_length np (length (data b)) s"
  have "take_indices (data b) ?perm = Inr (map (\<lambda>j. data b ! j) ?perm)"
    using assms(1) by (intro take_indices_ok) (simp add: pfl_set)
  moreover have "reshape (map (\<lambda>j. data b ! j) ?perm) (shape b) =
      Inr \<lparr>shape = shape b, data = map (\<lambda>j. data b ! j) ?perm\<rparr>"
    using assms by (intro reshape_ok) (simp add: pfl_length well_formed_def)
  ultimately show ?thesis
    by (simp add: apply_shuffle_def Let_def)
qed

lemma apply_shuffle_decrypt:
  assumes "well_bounded np" and "well_formed b"
    and "inverse_of np (permutation_for_length np (length (data b)) s) = Inr inv_perm"
  shows "apply_shuffle np b s False =
           Inr \<lparr>shape = shape b, data = map (\<lambda>j. data b ! j) inv_perm\<rparr>"
proof -
  let ?perm = "permutation_for_length np (length (data b)) s"
  have perm: "distinct ?perm" "set ?perm = {0..<length ?perm}" "length ?perm = length (data b)"
    using assms(1) by (simp_all add: pfl_distinct pfl_set pfl_length)
  from inverse_of_ok [OF perm(1,2), of np] assms(3)
  have inv: "length inv_perm = length ?perm" "\<forall>i<length ?perm. inv_perm ! i < length ?perm"
    by auto
  have "set inv_perm \<subseteq> {0..<length (data b)}"
    using inv perm(3) by (auto simp: in_set_conv_nth)
  then have "take_indices (data b) inv_perm = Inr (map (\<lambda>j. data b ! j) inv_perm)"
    by (rule take_indices_ok)
  moreover have "reshape (map (\<lambda>j. data b ! j) inv_perm) (shape b) =
      Inr \<lparr>shape = shape b, data = map (\<lambda>j. data b ! j) inv_perm\<rparr>"
    using assms(2) inv(1) perm(3) by (intro reshape_ok) (simp add: well_formed_def)
  ultimately show ?thesis
    using assms(3) by (simp add: apply_shuffle_def Let_def)
qed

lemma shuffle_round_trip_aux:
  assumes "well_bounded np" and "well_formed b"
  shows "\<exists>c. apply_shuffle np b s True = Inr c \<and> well_formed c \<and> apply_shuffle np c s False = Inr b"
proof -
  let ?n = "length (data b)"
  let ?perm = "permutation_for_length np ?n s"
  let ?c = "\<lparr>shape = shape b, data = map (\<lambda>j. data b ! j) ?perm\<rparr>"
  have perm: "distinct ?perm" "set ?perm = {0..<length ?perm}" "length ?perm = ?n"
    using assms(1) by (simp_all add: pfl_distinct pfl_set pfl_length)
  have enc: "apply_shuffle np b s True = Inr ?c"
    using assms by (rule apply_shuffle_encrypt)
  have wf: "well_formed ?c"
    using assms(2) perm(3) by (simp add: well_formed_def)
  have len_c: "length (data ?c) = ?n" using perm(3) by simp
  from inverse_of_ok [OF perm(1,2), of np] obtain inv_perm where
    inv: "inverse_of np ?perm = Inr inv_perm" "length inv_perm = length ?perm"
      "\<forall>i<length ?perm. inv_perm ! i < length ?perm \<and> ?perm ! (inv_perm ! i) = i"
    by blast
  have "inverse_of np (permutation_for_length np (length (data ?c)) s) = Inr inv_perm"
    using inv(1) len_c by simp
  with assms(1) wf have dec:
    "apply_shuffle np ?c s False = Inr \<lparr>shape = shape ?c, data = map (\<lambda>j. data ?c ! j) inv_perm\<rparr>"
    by (rule apply_shuffle_decrypt)
  have "map (\<lambda>j. data ?c ! j) inv_perm = data b"
  proof (rule nth_equalityI)
    show "length (map (\<lambda>j. data ?c ! j) inv_perm) = length (data b)"
      using inv(2) perm(3) by simp
  next
    fix i assume "i < length (map (\<lambda>j. data ?c ! j) inv_perm)"
    then have i: "i < length ?perm" using inv(2) by simp
    with inv(3) have "inv_perm ! i < length ?perm" "?perm ! (inv_perm ! i) = i" by auto
    then show "map (\<lambda>j. data ?c ! j) inv_perm ! i = data b ! i"
      using i inv(2) by simp
  qed
  then have "\<lparr>shape = shape ?c, data = map (\<lambda>j. data ?c ! j) inv_perm\<rparr> = b"
    by simp
  with enc wf dec show ?thesis by metis
qed

subsection \<open>The pipeline\<close>

lemma lit_simps:
  "lit ''both'' \<noteq> lit ''xor''" "lit ''both'' \<noteq> lit ''shuffle''"
  "lit ''encrypt'' \<noteq> lit ''decrypt''" "lit ''decrypt'' \<noteq> lit ''encrypt''"
  by (simp_all add: lit_def)

lemma well_formed_xor: "well_formed (xor_transform b k) = well_formed b"
  by (simp add: well_formed_def xor_transform_def)

lemma pipeline_rejects:
  assumes "mode \<notin> {lit ''xor'', lit ''shuffle'', lit ''both''} \<or>
           action \<notin> {lit ''encrypt'', lit ''decrypt''}"
  shows "pipeline np arr password mode action =
           (case encode_utf8 password of
              Inl e \<Rightarrow> Inl e
            | Inr m \<Rightarrow>
                Inl (ValueError
                  (if mode \<notin> {lit ''xor'', lit ''shuffle'', lit ''both''}
                   then mode_message else action_message)))"
proof (cases "encode_utf8 password")
  case (Inl e)
  then show ?thesis by (simp add: pipeline_def derive_key_byte_eq)
next
  case (Inr m)
  then have "derive_key_byte password = Inr (sha256 m ! 0)"
    and "derive_seed password = Inr (from_bytes_big (take 8 (sha256 m)))"
    by (simp_all add: derive_key_byte_eq derive_seed_Inr)
  then show ?thesis
    using assms Inr by (auto simp: pipeline_def)
qed

subsection \<open>Concrete runs\<close>

text \<open>
  The digest of \<^verbatim>\<open>"abc"\<close> is the first test vector of the standard; with it, the key
  material of the password \<^verbatim>\<open>"abc"\<close> is known.
\<close>

lemma well_bounded_lcg: "well_bounded lcg"
proof -
  have "st mod (i + 1) \<le> i" for st i :: nat
    using mod_less_divisor [of "i + 1" st] by simp
  then show ?thesis by (simp add: well_bounded_def lcg_def)
qed

lemma encode_abc: "encode_utf8 (lit ''abc'') = Inr [0x61, 0x62, 0x63]"
  by (simp add: lit_def encode_char_def)

lemma encodable_abc: "encodable (lit ''abc'')"
  by (simp add: encodable_def lit_def)

lemma sha256_abc:
  "sha256 [0x61, 0x62, 0x63] =
     [0xba, 0x78, 0x16, 0xbf, 0x8f, 0x01, 0xcf, 0xea, 0x41, 0x41, 0x40, 0xde, 0x5d, 0xae, 0x22, 0x23,
      0xb0, 0x03, 0x61, 0xa3, 0x96, 0x17, 0x7a, 0x9c, 0xb4, 0x10, 0xff, 0x61, 0xf2, 0x00, 0x15, 0xad]"
  by code_simp

lemma key_abc: "derive_key_byte (lit ''abc'') = Inr 0xba"
  by (simp add: derive_key_byte_eq encode_abc sha256_abc)

lemma seed_abc: "derive_seed (lit ''abc'') = Inr 0xba7816bf8f01cfea"
  by (simp add: derive_seed_Inr [OF encode_abc] sha256_abc from_bytes_big_def)

lemma shuffle_down_pos:
  "0 < k \<Longrightarrow> shuffle_down np k st xs =
     (case random_interval np st k of
        (j, st') \<Rightarrow> shuffle_down np (k - 1) st' (swap xs k j))"
  by (cases k) simp_all

lemma list_update_Cons_numeral:
  "(x # xs)[numeral v := y] = x # xs[numeral v - 1 := y]"
  by (simp add: numeral_eq_Suc)

lemma lcg_draw:
  "random_interval lcg st i =
     (st mod (i + 1), (st * 6364136223846793005 + 1442695040888963407) mod 2 ^ 64)"
  by (simp add: lcg_def)

lemma lcg_seed: "seed_state lcg s = s"
  by (simp add: lcg_def)

lemma upt_4: "[0..<4] = [0, 1, 2, 3]"
  by (simp add: upt_rec)

lemma Suc4: "Suc (Suc (Suc (Suc 0))) = 4"
  by simp

lemmas run_simps =
  permutation_for_length_def permutation_def default_rng_def shuffle_down_pos lcg_draw lcg_seed
  swap_def list_update_Cons_numeral upt_4 Suc4 numeral_2_eq_2 [symmetric]

lemma perm_4_2: "permutation_for_length lcg 4 2 = [3, 0, 1, 2]"
  by (simp add: run_simps)

lemma perm_4_abc: "permutation_for_length lcg 4 0xba7816bf8f01cfea = [1, 0, 3, 2]"
  by (simp add: run_simps)

lemma inv_4_2: "inverse_of lcg [3, 0, 1, 2] = Inr [1, 2, 3, 0]"
  by (simp add: inverse_of_def put_indices_def empty_like_def lcg_def list_update_Cons_numeral
      upt_4 Suc4)

lemma well_formed_2x2: "well_formed \<lparr>shape = [2, 2], data = [a, b, c, d]\<rparr>"
  by (simp add: well_formed_def)

lemma enc_4_2:
  "apply_shuffle lcg \<lparr>shape = [2, 2], data = [10, 20, 30, 40]\<rparr> 2 True =
     Inr \<lparr>shape = [2, 2], data = [40, 10, 20, 30]\<rparr>"
  by (simp add: apply_shuffle_def perm_4_2 take_indices_def reshape_def Suc4)

lemma dec_4_2:
  "apply_shuffle lcg \<lparr>shape = [2, 2], data = [10, 20, 30, 40]\<rparr> 2 False =
     Inr \<lparr>shape = [2, 2], data = [20, 30, 40, 10]\<rparr>"
  by (simp add: apply_shuffle_def perm_4_2 inv_4_2 [unfolded One_nat_def] take_indices_def
      reshape_def Suc4)

lemma enc_abc:
  "pipeline lcg \<lparr>shape = [2, 2], data = [10, 20, 30, 40]\<rparr>
     (lit ''abc'') (lit ''both'') (lit ''encrypt'') =
   Inr \<lparr>shape = [2, 2], data = [174, 176, 146, 164]\<rparr>"
  by (simp add: pipeline_def key_abc seed_abc lit_simps xor_transform_def apply_shuffle_def
      perm_4_abc take_indices_def reshape_def Suc4)

lemma load_one_image:
  "load_image_as_array files one_image (lit ''a.png'') =
     Inr (\<lparr>shape = [2, 2], data = [10, 20, 30, 40]\<rparr>, lit ''L'')"
  by (simp add: load_image_as_array_def files_def one_image_def ALLOWED_MODES_def lit_def)

lemma bogus_mode: "lit ''bogus'' \<notin> {lit ''xor'', lit ''shuffle'', lit ''both''}"
  by (simp add: lit_def)

lemma crypt_action: "lit ''crypt'' \<notin> {lit ''encrypt'', lit ''decrypt''}"
  by (simp add: lit_def)

lemma xor_mode: "lit ''xor'' \<in> {lit ''xor'', lit ''shuffle'', lit ''both''}"
  by simp

lemma load_missing: "load_image_as_array files [] path = Inl OSError"
  by (simp add: load_image_as_array_def files_def)

section \<open>The claims\<close>

text \<open>
  Claim C1, as amended. For every well-formed byte buffer \<open>b\<close> and every password \<open>p\<close> that
  has a UTF-8 encoding, encrypting with mode \<^verbatim>\<open>both\<close> (XOR with the derived key byte, then
  the forward shuffle with the derived seed) succeeds, and decrypting the result with mode
  \<^verbatim>\<open>both\<close> (inverse shuffle, then XOR) returns exactly \<open>b\<close>. The generator is any one
  whose bounded draw keeps to its bound.
\<close>

theorem pipeline_round_trip:
  assumes "well_bounded np" and "well_formed b" and "encodable p"
  shows "\<exists>c. pipeline np b p (lit ''both'') (lit ''encrypt'') = Inr c \<and>
             pipeline np c p (lit ''both'') (lit ''decrypt'') = Inr b"
proof -
  from assms(3) obtain m where m: "encode_utf8 p = Inr m"
    using encodable_encodes by blast
  define k where "k = sha256 m ! 0"
  define sd where "sd = from_bytes_big (take 8 (sha256 m))"
  have key: "derive_key_byte p = Inr k"
    by (simp add: derive_key_byte_eq m k_def)
  have seed: "derive_seed p = Inr sd"
    by (simp add: derive_seed_Inr m sd_def)
  have "well_formed (xor_transform b k)"
    using assms(2) by (simp add: well_formed_xor)
  with assms(1) obtain c where
    c: "apply_shuffle np (xor_transform b k) sd True = Inr c"
       "apply_shuffle np c sd False = Inr (xor_transform b k)"
    using shuffle_round_trip_aux by blast
  have "pipeline np b p (lit ''both'') (lit ''encrypt'') = Inr c"
    by (simp add: pipeline_def key seed c(1) lit_simps)
  moreover have "pipeline np c p (lit ''both'') (lit ''decrypt'') =
      Inr (xor_transform (xor_transform b k) k)"
    by (simp add: pipeline_def key seed c(2) lit_simps)
  ultimately show ?thesis
    by (simp add: xor_transform_def xor_twice o_def)
qed

text \<open>
  The run of the spec's scenario: buffer \<open>[10, 20, 30, 40]\<close>, password \<^verbatim>\<open>"abc"\<close>. The first
  conjunct is computed; the second follows from the theorem.
\<close>

theorem pipeline_round_trip_witness:
  "pipeline lcg \<lparr>shape = [2, 2], data = [10, 20, 30, 40]\<rparr>
     (lit ''abc'') (lit ''both'') (lit ''encrypt'') =
   Inr \<lparr>shape = [2, 2], data = [174, 176, 146, 164]\<rparr> \<and>
   pipeline lcg \<lparr>shape = [2, 2], data = [174, 176, 146, 164]\<rparr>
     (lit ''abc'') (lit ''both'') (lit ''decrypt'') =
   Inr \<lparr>shape = [2, 2], data = [10, 20, 30, 40]\<rparr>"
  using pipeline_round_trip [OF well_bounded_lcg well_formed_2x2 encodable_abc, of 10 20 30 40]
  by (auto simp: enc_abc)

text \<open>
  Claim C1 as stated, for every password, fails: a password that is one lone surrogate
  (what the command line delivers for the undecodable byte \<open>0x80\<close>) has no UTF-8 encoding,
  and the pipeline raises \<^verbatim>\<open>UnicodeEncodeError\<close> instead of returning a buffer.
\<close>

theorem pipeline_round_trip_counterexample:
  "pipeline lcg \<lparr>shape = [2, 2], data = [10, 20, 30, 40]\<rparr>
     [0xDC80] (lit ''both'') (lit ''encrypt'') = Inl UnicodeEncodeError"
  by (simp add: pipeline_def derive_key_byte_def encode_char_def)

text \<open>
  Claim C2. For every well-formed byte buffer \<open>b\<close> and every seed \<open>s\<close>, shuffling
  (\<^verbatim>\<open>encrypt=True\<close>) succeeds and unshuffling the result (\<^verbatim>\<open>encrypt=False\<close>) with the
  same seed returns exactly \<open>b\<close>. The generator is any one whose bounded draw keeps to its
  bound; the uninitialised memory behind \<^verbatim>\<open>np.empty_like\<close> is arbitrary.
\<close>

theorem shuffle_round_trip:
  assumes "well_bounded np" and "well_formed b"
  shows "\<exists>c. apply_shuffle np b s True = Inr c \<and> apply_shuffle np c s False = Inr b"
  using shuffle_round_trip_aux [OF assms] by blast

text \<open>
  A run with seed \<open>2\<close>, whose permutation \<open>[3, 0, 1, 2]\<close> is not its own inverse.
\<close>

theorem shuffle_round_trip_witness:
  "apply_shuffle lcg \<lparr>shape = [2, 2], data = [10, 20, 30, 40]\<rparr> 2 True =
     Inr \<lparr>shape = [2, 2], data = [40, 10, 20, 30]\<rparr> \<and>
   apply_shuffle lcg \<lparr>shape = [2, 2], data = [40, 10, 20, 30]\<rparr> 2 False =
     Inr \<lparr>shape = [2, 2], data = [10, 20, 30, 40]\<rparr>"
  using shuffle_round_trip [OF well_bounded_lcg well_formed_2x2, of 10 20 30 40 2]
  by (auto simp: enc_4_2)

text \<open>
  Claim C3. Applying \<^verbatim>\<open>xor_transform\<close> twice with the same key byte returns the original
  array, for every array and every key byte.
\<close>

theorem xor_self_inverse: "xor_transform (xor_transform b k) k = b"
  by (simp add: xor_transform_def xor_twice o_def)

text \<open>
  Claim C4. For every \<open>n\<close> and every seed \<open>s\<close>, \<^verbatim>\<open>permutation_for_length(n, s)\<close> has
  length \<open>n\<close> and holds each value of \<open>0..n-1\<close> exactly once; for \<open>n = 0\<close> it is empty
  and for \<open>n = 1\<close> it is \<open>[0]\<close>. The generator is any one whose bounded draw keeps to its
  bound.
\<close>

theorem permutation_bijection:
  assumes "well_bounded np"
  shows "length (permutation_for_length np n s) = n \<and>
         (\<forall>v<n. count_list (permutation_for_length np n s) v = 1) \<and>
         set (permutation_for_length np n s) = {0..<n} \<and>
         permutation_for_length np 0 s = [] \<and>
         permutation_for_length np 1 s = [0]"
proof (intro conjI allI impI)
  show "length (permutation_for_length np n s) = n"
    using assms by (rule pfl_length)
  show "set (permutation_for_length np n s) = {0..<n}"
    using assms by (rule pfl_set)
  show "count_list (permutation_for_length np n s) v = 1" if "v < n" for v
    using assms that by (rule pfl_count)
  show "permutation_for_length np 0 s = []"
    by (simp add: permutation_for_length_def permutation_def)
  show "permutation_for_length np 1 s = [0]"
    by (simp add: permutation_for_length_def permutation_def)
qed

text \<open>
  The permutation of length 4 for seed 2 under the generator \<open>lcg\<close>.
\<close>

theorem permutation_bijection_witness:
  "permutation_for_length lcg 4 2 = [3, 0, 1, 2] \<and>
   length (permutation_for_length lcg 4 2) = 4 \<and>
   set (permutation_for_length lcg 4 2) = {0..<4} \<and>
   count_list (permutation_for_length lcg 4 2) 3 = 1"
  using permutation_bijection [OF well_bounded_lcg, of 4 2] perm_4_2
  by simp

text \<open>
  Claim C5. For every password, the key byte is the first byte of the SHA-256 digest of the
  password's UTF-8 encoding and the seed is the digest's first eight bytes read as a
  big-endian number; the digest has 32 bytes, the key byte is below 256 and the seed below
  \<open>2^64\<close>. Where the password has no UTF-8 encoding, both derivations raise the codec's
  error; they fail in no other way.
\<close>

theorem key_derivation_contract:
  "derive_key_byte p =
     (case encode_utf8 p of Inl e \<Rightarrow> Inl e | Inr m \<Rightarrow> Inr (sha256 m ! 0)) \<and>
   derive_seed p =
     (case encode_utf8 p of
        Inl e \<Rightarrow> Inl e
      | Inr m \<Rightarrow> Inr (\<Sum>i<8. unat (sha256 m ! i) * 256 ^ (7 - i))) \<and>
   (case encode_utf8 p of Inl e \<Rightarrow> True | Inr m \<Rightarrow> length (sha256 m) = 32) \<and>
   (case derive_key_byte p of Inl e \<Rightarrow> True | Inr k \<Rightarrow> unat k < 256) \<and>
   (case derive_seed p of Inl e \<Rightarrow> True | Inr s \<Rightarrow> s < 2 ^ 64)"
proof (intro conjI)
  show "derive_key_byte p =
     (case encode_utf8 p of Inl e \<Rightarrow> Inl e | Inr m \<Rightarrow> Inr (sha256 m ! 0))"
    by (rule derive_key_byte_eq)
  show "derive_seed p =
     (case encode_utf8 p of
        Inl e \<Rightarrow> Inl e
      | Inr m \<Rightarrow> Inr (\<Sum>i<8. unat (sha256 m ! i) * 256 ^ (7 - i)))"
  proof (cases "encode_utf8 p")
    case (Inl e)
    then show ?thesis by (simp add: derive_seed_Inl)
  next
    case (Inr m)
    then show ?thesis
      by (simp only: derive_seed_Inr seed_of_digest [OF length_sha256] sum.case)
  qed
  show "case encode_utf8 p of Inl e \<Rightarrow> True | Inr m \<Rightarrow> length (sha256 m) = 32"
    by (simp add: length_sha256 split: sum.splits)
  show "case derive_key_byte p of Inl e \<Rightarrow> True | Inr k \<Rightarrow> unat k < 256"
    by (simp add: unat_byte_less split: sum.splits)
  show "case derive_seed p of Inl e \<Rightarrow> True | Inr s \<Rightarrow> s < 2 ^ 64"
  proof (cases "encode_utf8 p")
    case (Inl e)
    then show ?thesis by (simp add: derive_seed_Inl)
  next
    case (Inr m)
    then show ?thesis
      using seed_bound [OF length_sha256, of m] by (simp only: derive_seed_Inr sum.case)
  qed
qed

text \<open>
  The key material of the password \<^verbatim>\<open>"abc"\<close>.
\<close>

theorem key_derivation_contract_witness:
  "derive_key_byte (lit ''abc'') = Inr 0xba \<and>
   derive_seed (lit ''abc'') = Inr 0xba7816bf8f01cfea"
  using key_derivation_contract [of "lit ''abc''"]
  by (simp add: encode_abc sha256_abc sum8)

text \<open>
  Claim C6. \<^verbatim>\<open>xor_transform(b, k)\<close> has the length and the shape of \<open>b\<close>, its byte at
  every index \<open>i\<close> is \<open>b[i] XOR k\<close>, and an empty array is returned unchanged.
  \<^verbatim>\<open>xor_transform\<close> has no error result: it is defined for every array and key byte.
\<close>

theorem xor_pointwise:
  "length (data (xor_transform b k)) = length (data b) \<and>
   shape (xor_transform b k) = shape b \<and>
   (\<forall>i<length (data b). data (xor_transform b k) ! i = data b ! i XOR k) \<and>
   (data b = [] \<longrightarrow> xor_transform b k = b)"
  by (simp add: xor_transform_def)

text \<open>
  A byte of the spec's buffer under the key of \<^verbatim>\<open>"abc"\<close>, and the empty array.
\<close>

theorem xor_pointwise_witness:
  "data (xor_transform \<lparr>shape = [2, 2], data = [10, 20, 30, 40]\<rparr> 0xba) ! 1 = 174 \<and>
   length (data (xor_transform \<lparr>shape = [2, 2], data = [10, 20, 30, 40]\<rparr> 0xba)) = 4 \<and>
   xor_transform \<lparr>shape = [0], data = []\<rparr> 0xba = \<lparr>shape = [0], data = []\<rparr>"
  using xor_pointwise [of "\<lparr>shape = [2, 2], data = [10, 20, 30, 40]\<rparr>" "0xba"]
    xor_pointwise [of "\<lparr>shape = [0], data = []\<rparr>" "0xba"]
  by simp

text \<open>
  Claim C7. For every well-formed buffer \<open>b\<close> and seed \<open>s\<close>, with
  \<open>perm = permutation_for_length(len(b), s)\<close>: shuffling yields \<open>b'\<close> with
  \<open>b'[i] = b[perm[i]]\<close>; unshuffling builds the array \<open>inv\<close> with \<open>inv[perm[i]] = i\<close> and
  yields \<open>b''\<close> with \<open>b''[i] = b[inv[i]]\<close>; both results have the length and the shape of
  \<open>b\<close>. The generator is any one whose bounded draw keeps to its bound.
\<close>

theorem shuffle_pointwise:
  assumes "well_bounded np" and "well_formed b"
  shows "\<exists>b' inv_perm b''.
           apply_shuffle np b s True = Inr b' \<and>
           shape b' = shape b \<and> length (data b') = length (data b) \<and>
           (\<forall>i<length (data b).
              data b' ! i = data b ! (permutation_for_length np (length (data b)) s ! i)) \<and>
           inverse_of np (permutation_for_length np (length (data b)) s) = Inr inv_perm \<and>
           length inv_perm = length (data b) \<and>
           (\<forall>i<length (data b).
              inv_perm ! (permutation_for_length np (length (data b)) s ! i) = i) \<and>
           apply_shuffle np b s False = Inr b'' \<and>
           shape b'' = shape b \<and> length (data b'') = length (data b) \<and>
           (\<forall>i<length (data b). data b'' ! i = data b ! (inv_perm ! i))"
proof -
  let ?n = "length (data b)"
  let ?perm = "permutation_for_length np ?n s"
  have perm: "distinct ?perm" "set ?perm = {0..<length ?perm}" "length ?perm = ?n"
    using assms(1) by (simp_all add: pfl_distinct pfl_set pfl_length)
  from inverse_of_ok [OF perm(1,2), of np] obtain inv_perm where
    inv: "inverse_of np ?perm = Inr inv_perm" "length inv_perm = length ?perm"
      "\<forall>k<length ?perm. inv_perm ! (?perm ! k) = k"
    by blast
  let ?b' = "\<lparr>shape = shape b, data = map (\<lambda>j. data b ! j) ?perm\<rparr>"
  let ?b'' = "\<lparr>shape = shape b, data = map (\<lambda>j. data b ! j) inv_perm\<rparr>"
  have enc: "apply_shuffle np b s True = Inr ?b'"
    using assms by (rule apply_shuffle_encrypt)
  have dec: "apply_shuffle np b s False = Inr ?b''"
    using assms inv(1) by (rule apply_shuffle_decrypt)
  have "shape ?b' = shape b \<and> length (data ?b') = ?n \<and>
        (\<forall>i<?n. data ?b' ! i = data b ! (?perm ! i))"
    using perm(3) by simp
  moreover have "length inv_perm = ?n \<and> (\<forall>i<?n. inv_perm ! (?perm ! i) = i)"
    using inv(2,3) perm(3) by simp
  moreover have "shape ?b'' = shape b \<and> length (data ?b'') = ?n \<and>
        (\<forall>i<?n. data ?b'' ! i = data b ! (inv_perm ! i))"
    using inv(2) perm(3) by simp
  ultimately show ?thesis
    using enc dec inv(1) by blast
qed

text \<open>
  Shuffle, inverse array and unshuffle of the spec's buffer for seed 2.
\<close>

theorem shuffle_pointwise_witness:
  "apply_shuffle lcg \<lparr>shape = [2, 2], data = [10, 20, 30, 40]\<rparr> 2 True =
     Inr \<lparr>shape = [2, 2], data = [40, 10, 20, 30]\<rparr> \<and>
   inverse_of lcg (permutation_for_length lcg 4 2) = Inr [1, 2, 3, 0] \<and>
   apply_shuffle lcg \<lparr>shape = [2, 2], data = [10, 20, 30, 40]\<rparr> 2 False =
     Inr \<lparr>shape = [2, 2], data = [20, 30, 40, 10]\<rparr>"
  using shuffle_pointwise [OF well_bounded_lcg well_formed_2x2, of 10 20 30 40 2]
  by (simp add: enc_4_2 dec_4_2 perm_4_2 inv_4_2 [unfolded One_nat_def])

text \<open>
  Claim C8, as amended. Whenever \<^verbatim>\<open>process\<close> is called with a mode outside
  \<^verbatim>\<open>{xor, shuffle, both}\<close> or an action outside \<^verbatim>\<open>{encrypt, decrypt}\<close>, it raises an error
  and leaves the file system as it was; the pipeline returns no array, whatever the buffer.
  The error is the \<^verbatim>\<open>ValueError\<close> naming the bad argument (the mode first) whenever the
  input image loads and the password has a UTF-8 encoding: loading and key derivation come
  before the two checks.
\<close>

theorem process_fail_fast:
  assumes "mode \<notin> {lit ''xor'', lit ''shuffle'', lit ''both''} \<or>
           action \<notin> {lit ''encrypt'', lit ''decrypt''}"
  shows "(\<exists>e. process np io w in_path out_path password mode action = (Some e, w)) \<and>
         (\<forall>arr. \<exists>e. pipeline np arr password mode action = Inl e) \<and>
         (\<forall>arr img_mode.
            load_image_as_array io w in_path = Inr (arr, img_mode) \<and> encodable password \<longrightarrow>
            process np io w in_path out_path password mode action =
              (Some (ValueError
                 (if mode \<notin> {lit ''xor'', lit ''shuffle'', lit ''both''}
                  then mode_message else action_message)), w))"
proof (intro conjI allI impI)
  have rejected: "\<exists>e. pipeline np arr password mode action = Inl e" for arr
    by (simp add: pipeline_rejects [OF assms] split: sum.splits)
  show "\<exists>e. pipeline np arr password mode action = Inl e" for arr
    by (rule rejected)
  show "\<exists>e. process np io w in_path out_path password mode action = (Some e, w)"
  proof (cases "load_image_as_array io w in_path")
    case (Inl e)
    then show ?thesis by (simp add: process_def)
  next
    case (Inr loaded)
    obtain arr img_mode where "loaded = (arr, img_mode)" by (cases loaded)
    moreover obtain e where "pipeline np arr password mode action = Inl e"
      using rejected by blast
    ultimately show ?thesis using Inr by (simp add: process_def)
  qed
  show "process np io w in_path out_path password mode action =
      (Some (ValueError
         (if mode \<notin> {lit ''xor'', lit ''shuffle'', lit ''both''}
          then mode_message else action_message)), w)"
    if "load_image_as_array io w in_path = Inr (arr, img_mode) \<and> encodable password"
    for arr img_mode
  proof -
    from that obtain m where "encode_utf8 password = Inr m"
      using encodable_encodes by blast
    then have "pipeline np arr password mode action =
        Inl (ValueError
          (if mode \<notin> {lit ''xor'', lit ''shuffle'', lit ''both''}
           then mode_message else action_message))"
      by (simp add: pipeline_rejects [OF assms])
    with that show ?thesis by (simp add: process_def)
  qed
qed

text \<open>
  An unknown mode, and a known mode with an unknown action, on a file system holding the
  input image.
\<close>

theorem process_fail_fast_witness:
  "process lcg files one_image (lit ''a.png'') (lit ''b.png'') (lit ''abc'')
     (lit ''bogus'') (lit ''encrypt'') = (Some (ValueError mode_message), one_image) \<and>
   process lcg files one_image (lit ''a.png'') (lit ''b.png'') (lit ''abc'')
     (lit ''xor'') (lit ''crypt'') = (Some (ValueError action_message), one_image)"
proof -
  have "process lcg files one_image (lit ''a.png'') (lit ''b.png'') (lit ''abc'')
      (lit ''bogus'') (lit ''encrypt'') =
    (Some (ValueError
       (if lit ''bogus'' \<notin> {lit ''xor'', lit ''shuffle'', lit ''both''}
        then mode_message else action_message)), one_image)"
    using process_fail_fast [of "lit ''bogus''" "lit ''encrypt''" lcg files one_image
        "lit ''a.png''" "lit ''b.png''" "lit ''abc''"] bogus_mode load_one_image encodable_abc
    by blast
  moreover have "process lcg files one_image (lit ''a.png'') (lit ''b.png'') (lit ''abc'')
      (lit ''xor'') (lit ''crypt'') =
    (Some (ValueError
       (if lit ''xor'' \<notin> {lit ''xor'', lit ''shuffle'', lit ''both''}
        then mode_message else action_message)), one_image)"
    using process_fail_fast [of "lit ''xor''" "lit ''crypt''" lcg files one_image
        "lit ''a.png''" "lit ''b.png''" "lit ''abc''"] crypt_action load_one_image encodable_abc
    by blast
  ultimately show ?thesis
    using bogus_mode xor_mode by (simp only: if_True if_False not_True_eq_False simp_thms)
qed

text \<open>
  Claim C8 as stated fails: with an invalid mode, a missing input file makes \<^verbatim>\<open>process\<close>
  raise the loader's error, and a password that is one lone surrogate makes it raise
  \<^verbatim>\<open>UnicodeEncodeError\<close>; in neither run is the error the one for the invalid mode.
\<close>

theorem process_fail_fast_counterexample:
  "process lcg files [] (lit ''a.png'') (lit ''b.png'') (lit ''abc'')
     (lit ''bogus'') (lit ''encrypt'') = (Some OSError, []) \<and>
   process lcg files one_image (lit ''a.png'') (lit ''b.png'') [0xDC80]
     (lit ''bogus'') (lit ''encrypt'') = (Some UnicodeEncodeError, one_image)"
proof
  show "process lcg files [] (lit ''a.png'') (lit ''b.png'') (lit ''abc'')
     (lit ''bogus'') (lit ''encrypt'') = (Some OSError, [])"
    by (simp add: process_def load_missing)
  have "pipeline lcg arr [0xDC80] (lit ''bogus'') (lit ''encrypt'') = Inl UnicodeEncodeError"
    for arr
    by (simp add: pipeline_def derive_key_byte_def encode_char_def)
  then show "process lcg files one_image (lit ''a.png'') (lit ''b.png'') [0xDC80]
     (lit ''bogus'') (lit ''encrypt'') = (Some UnicodeEncodeError, one_image)"
    by (simp add: process_def load_one_image)
qed

text \<open>
  Claim C9. \<^verbatim>\<open>permutation_for_length(n, s)\<close> depends on its arguments and on the
  generator's algorithm only: two runtimes that seed and draw alike give the same array,
  whatever their operating-system entropy and their uninitialised memory.
\<close>

theorem permutation_deterministic:
  assumes "seed_state np' = seed_state np" and "random_interval np' = random_interval np"
  shows "permutation_for_length np' n s = permutation_for_length np n s"
  using assms(1) shuffle_down_cong [OF assms(2)]
  by (simp add: permutation_for_length_def permutation_def default_rng_def)

text \<open>
  Two runtimes that differ in entropy and in uninitialised memory.
\<close>

theorem permutation_deterministic_witness:
  "permutation_for_length (lcg\<lparr>os_entropy := 99, uninitialised := (\<lambda>_. 7)\<rparr>) 4 2 =
   permutation_for_length lcg 4 2"
  using
    permutation_deterministic [of "lcg\<lparr>os_entropy := 99, uninitialised := (\<lambda>_. 7)\<rparr>" lcg 4 2]
  by simp

text \<open>
  Claim C10. For every password, the derived key byte is the most significant byte of the
  derived seed: \<open>derive_key_byte(p) = derive_seed(p) div 2^56\<close>. Where the password has no
  UTF-8 encoding, both derivations raise the same error.
\<close>

theorem key_byte_tops_seed:
  "map_sum id unat (derive_key_byte p) = map_sum id (\<lambda>s. s div 2 ^ 56) (derive_seed p)"
proof (cases "encode_utf8 p")
  case (Inl e)
  then show ?thesis by (simp add: derive_key_byte_eq derive_seed_Inl)
next
  case (Inr m)
  then show ?thesis
    by (simp only: derive_key_byte_eq derive_seed_Inr sum.case map_sum.simps id_apply
        seed_top_byte [OF length_sha256])
qed

text \<open>
  For the password \<^verbatim>\<open>"abc"\<close> the top byte of the seed is \<open>0xba\<close>.
\<close>

theorem key_byte_tops_seed_witness:
  "map_sum id (\<lambda>s. s div 2 ^ 56) (derive_seed (lit ''abc'')) = Inr 0xba"
  using key_byte_tops_seed [of "lit ''abc''"] by (simp add: key_abc)

end
